theory Spec2Isabelle
  imports Main
begin

section \<open>The desktop's window state (Desktop component)\<close>

text \<open>
  The Desktop component keeps two pieces of state that matter for window management: the
  array \<open>windows\<close> of \<open>AppWindow\<close> objects and the counter \<open>nextZIndex\<close>, which starts
  at 1000. Each handler (\<open>openApp\<close>, \<open>closeWindow\<close>, ...) reads the current state and
  replaces it; the model passes the state explicitly and returns the new one.

  JavaScript numbers are modelled as unbounded integers (the counter and the staggered
  coordinates are whole numbers far below \<open>2^53\<close>). \<open>Date.now()\<close> is a reading of the
  environment's clock, in milliseconds, so it is an argument of \<open>openApp\<close>; nothing in
  the component constrains the readings of successive calls.

  The fields \<open>id\<close> and \<open>size\<close> of \<open>AppWindow\<close> are named \<open>id_w\<close> and \<open>size_w\<close> here.
  The component's other state (the wallet dialog flag and the displayed time) is never
  read by the window handlers and is left out.
\<close>

record position =
  x :: int
  y :: int

record dimensions =
  width :: int
  height :: int

record AppWindow =
  id_w :: string
  title :: string
  component :: string
  isMinimized :: bool
  isMaximized :: bool
  position :: position
  size_w :: dimensions
  zIndex :: int

record desktop =
  windows :: "AppWindow list"
  nextZIndex :: int

definition initial :: desktop where
  "initial = \<lparr>windows = [], nextZIndex = 1000\<rparr>"

subsection \<open>Number.prototype.toString for a clock reading\<close>

definition digit :: "nat \<Rightarrow> char" where
  "digit d = ''0123456789'' ! d"

fun toString :: "nat \<Rightarrow> string" where
  "toString n = (if n < 10 then [digit n] else toString (n div 10) @ [digit (n mod 10)])"

declare toString.simps [simp del]

subsection \<open>The handlers\<close>

definition focusWindow :: "desktop \<Rightarrow> string \<Rightarrow> desktop" where
  "focusWindow s windowId =
     \<lparr>windows = map (\<lambda>w. if id_w w = windowId
                           then w\<lparr>zIndex := nextZIndex s, isMinimized := False\<rparr>
                           else w) (windows s),
      nextZIndex = nextZIndex s + 1\<rparr>"

text \<open>
  \<open>openApp\<close> has no \<open>return\<close> with a value on either path, so a call evaluates to
  \<open>undefined\<close>: the first component of the result is \<open>None\<close> for \<open>undefined\<close>, and
  would be \<open>Some v\<close> for a returned string \<open>v\<close>.
\<close>

definition openApp :: "nat \<Rightarrow> desktop \<Rightarrow> string \<Rightarrow> string \<Rightarrow> string option \<times> desktop" where
  "openApp now s appType ttl =
     (case find (\<lambda>w. component w = appType) (windows s) of
        Some existingWindow \<Rightarrow> (None, focusWindow s (id_w existingWindow))
      | None \<Rightarrow>
          (let newWindow =
                 \<lparr>id_w = toString now,
                  title = ttl,
                  component = appType,
                  isMinimized = False,
                  isMaximized = False,
                  position = \<lparr>x = 100 + int (length (windows s)) * 30,
                              y = 100 + int (length (windows s)) * 30\<rparr>,
                  size_w = \<lparr>width = 800, height = 600\<rparr>,
                  zIndex = nextZIndex s\<rparr>
           in (None, \<lparr>windows = windows s @ [newWindow],
                      nextZIndex = nextZIndex s + 1\<rparr>)))"

definition closeWindow :: "desktop \<Rightarrow> string \<Rightarrow> desktop" where
  "closeWindow s windowId = s\<lparr>windows := filter (\<lambda>w. id_w w \<noteq> windowId) (windows s)\<rparr>"

definition minimizeWindow :: "desktop \<Rightarrow> string \<Rightarrow> desktop" where
  "minimizeWindow s windowId =
     s\<lparr>windows := map (\<lambda>w. if id_w w = windowId then w\<lparr>isMinimized := True\<rparr> else w)
                       (windows s)\<rparr>"

definition maximizeWindow :: "desktop \<Rightarrow> string \<Rightarrow> desktop" where
  "maximizeWindow s windowId =
     s\<lparr>windows := map (\<lambda>w. if id_w w = windowId
                            then w\<lparr>isMaximized := \<not> isMaximized w, isMinimized := False\<rparr>
                            else w) (windows s)\<rparr>"

definition updateWindowPosition :: "desktop \<Rightarrow> string \<Rightarrow> position \<Rightarrow> desktop" where
  "updateWindowPosition s windowId pos =
     s\<lparr>windows := map (\<lambda>w. if id_w w = windowId then w\<lparr>position := pos\<rparr> else w)
                       (windows s)\<rparr>"

definition updateWindowSize :: "desktop \<Rightarrow> string \<Rightarrow> dimensions \<Rightarrow> desktop" where
  "updateWindowSize s windowId sz =
     s\<lparr>windows := map (\<lambda>w. if id_w w = windowId then w\<lparr>size_w := sz\<rparr> else w)
                       (windows s)\<rparr>"

subsection \<open>Sessions: sequences of handler calls\<close>

text \<open>
  A session is the list of handler calls made since the page was loaded. \<open>Open\<close> carries
  the value \<open>Date.now()\<close> had during the call.
\<close>

datatype command =
    Open nat string string
  | Close string
  | Minimize string
  | Maximize string
  | Focus string
  | Move string position
  | Resize string dimensions

fun step :: "desktop \<Rightarrow> command \<Rightarrow> desktop" where
  "step s (Open now appType ttl) = snd (openApp now s appType ttl)"
| "step s (Close i) = closeWindow s i"
| "step s (Minimize i) = minimizeWindow s i"
| "step s (Maximize i) = maximizeWindow s i"
| "step s (Focus i) = focusWindow s i"
| "step s (Move i pos) = updateWindowPosition s i pos"
| "step s (Resize i sz) = updateWindowSize s i sz"

fun run :: "command list \<Rightarrow> desktop \<Rightarrow> desktop" where
  "run [] s = s"
| "run (c # cs) s = run cs (step s c)"

definition session :: "command list \<Rightarrow> desktop" where
  "session cs = run cs initial"

text \<open>The clock readings of the \<open>openApp\<close> calls of a session, in order.\<close>

fun readings :: "command list \<Rightarrow> nat list" where
  "readings [] = []"
| "readings (Open now appType ttl # cs) = now # readings cs"
| "readings (c # cs) = readings cs"

text \<open>
  The ids given to the windows a call creates: the ids of the entries the call appended to
  the array. Only \<open>openApp\<close> appends.
\<close>

fun created :: "desktop \<Rightarrow> command \<Rightarrow> string list" where
  "created s (Open now appType ttl) =
     map id_w (drop (length (windows s)) (windows (snd (openApp now s appType ttl))))"
| "created s c = []"

fun assigned :: "command list \<Rightarrow> desktop \<Rightarrow> string list" where
  "assigned [] s = []"
| "assigned (c # cs) s = created s c @ assigned cs (step s c)"

subsection \<open>Invariants used in the proofs\<close>

text \<open>
  \<open>zbound\<close>: the counter is at least its seed and bounds every z-index in the array.
  \<open>zsep\<close>: windows with different ids have different z-indexes. \<open>ids_below b\<close>: the
  ids in the array are pairwise distinct and each prints a clock reading below \<open>b\<close>.
\<close>

definition zbound :: "desktop \<Rightarrow> bool" where
  "zbound s \<longleftrightarrow>
     1000 \<le> nextZIndex s \<and> (\<forall>w \<in> set (windows s). 1000 \<le> zIndex w \<and> zIndex w < nextZIndex s)"

definition zsep :: "desktop \<Rightarrow> bool" where
  "zsep s \<longleftrightarrow>
     (\<forall>a \<in> set (windows s). \<forall>b \<in> set (windows s). id_w a \<noteq> id_w b \<longrightarrow> zIndex a \<noteq> zIndex b)"

definition ids_below :: "nat \<Rightarrow> desktop \<Rightarrow> bool" where
  "ids_below b s \<longleftrightarrow>
     distinct (map id_w (windows s)) \<and> (\<forall>w \<in> set (windows s). \<exists>t < b. id_w w = toString t)"

section \<open>The taskbar (Taskbar component)\<close>

text \<open>
  The taskbar receives the window array and two callbacks. It renders a button for each
  entry of \<open>quickLaunchApps\<close> and a button for each window that is not minimized. The
  model keeps what a button is keyed by, what its click calls, its tooltip, and for a
  quick-launch button whether it is drawn highlighted (\<open>isOpen\<close>); icons and styling
  are left out. The Tailwind classes \<open>z-50\<close> of the taskbar and \<open>z-10\<close> of the icon
  grid are the z-indexes of the chrome.
\<close>

datatype callback = onWindowClick string | onAppOpen string string

record quickLaunchButton =
  ql_key :: string
  ql_onClick :: callback
  ql_isOpen :: bool
  ql_title :: string

record windowButton =
  wb_key :: string
  wb_onClick :: callback
  wb_title :: string

definition quickLaunchApps :: "(string \<times> string) list" where
  "quickLaunchApps =
     [(''FileManager'', ''File Manager''),
      (''CodeEditor'', ''Code Editor''),
      (''AIAssistant'', ''AI Assistant''),
      (''Terminal'', ''Terminal'')]"

definition quickLaunch :: "AppWindow list \<Rightarrow> quickLaunchButton list" where
  "quickLaunch ws =
     map (\<lambda>(c, t). \<lparr>ql_key = c, ql_onClick = onAppOpen c t,
                     ql_isOpen = list_ex (\<lambda>w. component w = c) ws, ql_title = t\<rparr>)
         quickLaunchApps"

definition openWindows :: "AppWindow list \<Rightarrow> windowButton list" where
  "openWindows ws =
     map (\<lambda>w. \<lparr>wb_key = id_w w, wb_onClick = onWindowClick (id_w w), wb_title = title w\<rparr>)
         (filter (\<lambda>w. \<not> isMinimized w) ws)"

text \<open>The Desktop passes \<open>focusWindow\<close> as \<open>onWindowClick\<close> and \<open>openApp\<close> as \<open>onAppOpen\<close>.\<close>

fun call :: "nat \<Rightarrow> desktop \<Rightarrow> callback \<Rightarrow> desktop" where
  "call now s (onWindowClick i) = focusWindow s i"
| "call now s (onAppOpen c t) = snd (openApp now s c t)"

definition taskbar_zIndex :: int where
  "taskbar_zIndex = 50"

definition desktopIcons_zIndex :: int where
  "desktopIcons_zIndex = 10"

section \<open>The resize gesture (Window Instance Controller)\<close>



section \<open>Basic facts about the handlers\<close>

lemma run_append: "run (cs @ ds) s = run ds (run cs s)"
  by (induction cs arbitrary: s) simp_all

lemma focusWindow_cases:
  assumes "w \<in> set (windows (focusWindow s i))"
  obtains v where "v \<in> set (windows s)" "id_w v = i"
      "w = v\<lparr>zIndex := nextZIndex s, isMinimized := False\<rparr>"
  | "w \<in> set (windows s)" "id_w w \<noteq> i"
proof -
  from assms obtain v where v: "v \<in> set (windows s)"
    and w: "w = (if id_w v = i then v\<lparr>zIndex := nextZIndex s, isMinimized := False\<rparr> else v)"
    unfolding focusWindow_def by fastforce
  show thesis
  proof (cases "id_w v = i")
    case True
    with v w that(1) show thesis by simp
  next
    case False
    with v w that(2) show thesis by simp
  qed
qed

lemma focusWindow_hit:
  assumes "w \<in> set (windows (focusWindow s i))" "id_w w = i"
  shows "zIndex w = nextZIndex s \<and> \<not> isMinimized w"
  using assms(1)
proof (cases rule: focusWindow_cases)
  case (1 v)
  then show ?thesis by simp
next
  case 2
  with assms(2) show ?thesis by simp
qed

lemma focusWindow_miss:
  assumes "w \<in> set (windows (focusWindow s i))" "id_w w \<noteq> i"
  shows "w \<in> set (windows s)"
  using assms(1)
proof (cases rule: focusWindow_cases)
  case (1 v)
  with assms(2) show ?thesis by simp
next
  case 2
  then show ?thesis by simp
qed

lemma focusWindow_ids: "map id_w (windows (focusWindow s i)) = map id_w (windows s)"
  by (simp add: focusWindow_def comp_def if_distrib cong: if_cong)

lemma focusWindow_next: "nextZIndex (focusWindow s i) = nextZIndex s + 1"
  by (simp add: focusWindow_def)

lemma focusWindow_absent:
  "\<forall>w \<in> set (windows s). id_w w \<noteq> i \<Longrightarrow> windows (focusWindow s i) = windows s"
  by (simp add: focusWindow_def map_idI)

section \<open>The counter bounds every z-index\<close>

lemma zbound_initial: "zbound initial"
  by (simp add: zbound_def initial_def)

lemma map_eq_image: "map f xs = map f ys \<Longrightarrow> f ` set xs = f ` set ys"
  by (metis set_map)

lemma zbound_transfer:
  assumes sub: "zIndex ` set (windows s') \<subseteq> zIndex ` set (windows s)"
    and nxt: "nextZIndex s' = nextZIndex s"
    and zb: "zbound s"
  shows "zbound s'"
  unfolding zbound_def
proof (intro conjI ballI)
  show "1000 \<le> nextZIndex s'" using zb nxt by (simp add: zbound_def)
next
  fix w assume "w \<in> set (windows s')"
  with sub obtain v where v: "v \<in> set (windows s)" "zIndex w = zIndex v" by blast
  with zb show "1000 \<le> zIndex w" by (simp add: zbound_def)
  from v zb nxt show "zIndex w < nextZIndex s'" by (simp add: zbound_def)
qed

lemma zsep_transfer:
  assumes sub: "(\<lambda>w. (id_w w, zIndex w)) ` set (windows s') \<subseteq> (\<lambda>w. (id_w w, zIndex w)) ` set (windows s)"
    and zs: "zsep s"
  shows "zsep s'"
  unfolding zsep_def
proof (intro ballI impI)
  fix a b
  assume "a \<in> set (windows s')" "b \<in> set (windows s')" and ne: "id_w a \<noteq> id_w b"
  with sub obtain a' b' where a': "a' \<in> set (windows s)" "id_w a = id_w a'" "zIndex a = zIndex a'"
    and b': "b' \<in> set (windows s)" "id_w b = id_w b'" "zIndex b = zIndex b'"
    by blast
  with zs ne show "zIndex a \<noteq> zIndex b" by (simp add: zsep_def)
qed

lemma minimizeWindow_idz:
  "map (\<lambda>w. (id_w w, zIndex w)) (windows (minimizeWindow s i)) = map (\<lambda>w. (id_w w, zIndex w)) (windows s)"
  by (simp add: minimizeWindow_def comp_def if_distrib cong: if_cong)

lemma maximizeWindow_idz:
  "map (\<lambda>w. (id_w w, zIndex w)) (windows (maximizeWindow s i)) = map (\<lambda>w. (id_w w, zIndex w)) (windows s)"
  by (simp add: maximizeWindow_def comp_def if_distrib cong: if_cong)

lemma updateWindowPosition_idz:
  "map (\<lambda>w. (id_w w, zIndex w)) (windows (updateWindowPosition s i p)) = map (\<lambda>w. (id_w w, zIndex w)) (windows s)"
  by (simp add: updateWindowPosition_def comp_def if_distrib cong: if_cong)

lemma updateWindowSize_idz:
  "map (\<lambda>w. (id_w w, zIndex w)) (windows (updateWindowSize s i d)) = map (\<lambda>w. (id_w w, zIndex w)) (windows s)"
  by (simp add: updateWindowSize_def comp_def if_distrib cong: if_cong)

lemma closeWindow_idz:
  "(\<lambda>w. (id_w w, zIndex w)) ` set (windows (closeWindow s i)) \<subseteq> (\<lambda>w. (id_w w, zIndex w)) ` set (windows s)"
  by (auto simp: closeWindow_def)

text \<open>
  The handlers other than \<open>openApp\<close> and \<open>focusWindow\<close> write neither an id nor a
  z-index nor the counter, and add no window.
\<close>

lemma quiet_step:
  assumes "\<And>now a t. c \<noteq> Open now a t" "\<And>i. c \<noteq> Focus i"
  shows "(\<lambda>w. (id_w w, zIndex w)) ` set (windows (step s c)) \<subseteq> (\<lambda>w. (id_w w, zIndex w)) ` set (windows s)
         \<and> nextZIndex (step s c) = nextZIndex s"
proof (cases c)
  case (Close i)
  then show ?thesis using closeWindow_idz [of s i] by (simp add: closeWindow_def)
next
  case (Minimize i)
  then show ?thesis using map_eq_image [OF minimizeWindow_idz [of s i]]
    by (simp add: minimizeWindow_def)
next
  case (Maximize i)
  then show ?thesis using map_eq_image [OF maximizeWindow_idz [of s i]]
    by (simp add: maximizeWindow_def)
next
  case (Move i p)
  then show ?thesis using map_eq_image [OF updateWindowPosition_idz [of s i p]]
    by (simp add: updateWindowPosition_def)
next
  case (Resize i d)
  then show ?thesis using map_eq_image [OF updateWindowSize_idz [of s i d]]
    by (simp add: updateWindowSize_def)
qed (use assms in simp_all)

lemma idz_zIndex_sub:
  assumes "(\<lambda>w. (id_w w, zIndex w)) ` set ws' \<subseteq> (\<lambda>w. (id_w w, zIndex w)) ` set ws"
  shows "zIndex ` set ws' \<subseteq> zIndex ` set ws"
proof
  fix z assume "z \<in> zIndex ` set ws'"
  then obtain w where "w \<in> set ws'" "z = zIndex w" by blast
  with assms obtain v where "v \<in> set ws" "zIndex w = zIndex v" by blast
  with \<open>z = zIndex w\<close> show "z \<in> zIndex ` set ws" by simp
qed

lemma zbound_focusWindow:
  assumes "zbound s"
  shows "zbound (focusWindow s i)"
  unfolding zbound_def
proof (intro conjI ballI)
  show "1000 \<le> nextZIndex (focusWindow s i)"
    using assms by (simp add: focusWindow_next zbound_def)
next
  fix w assume "w \<in> set (windows (focusWindow s i))"
  then show "1000 \<le> zIndex w"
    using assms by (cases rule: focusWindow_cases) (auto simp: zbound_def)
next
  fix w assume "w \<in> set (windows (focusWindow s i))"
  then show "zIndex w < nextZIndex (focusWindow s i)"
    using assms by (cases rule: focusWindow_cases) (auto simp: zbound_def focusWindow_next)
qed

lemma zbound_openApp:
  assumes "zbound s"
  shows "zbound (snd (openApp now s a t))"
proof (cases "find (\<lambda>w. component w = a) (windows s)")
  case None
  with assms show ?thesis
    by (auto simp: openApp_def zbound_def)
next
  case (Some e)
  with assms show ?thesis
    by (simp add: openApp_def zbound_focusWindow)
qed

lemma zbound_step:
  assumes "zbound s"
  shows "zbound (step s c)"
proof -
  consider (Open) now a t where "c = Open now a t" | (Focus) i where "c = Focus i"
    | (quiet) "\<And>now a t. c \<noteq> Open now a t" "\<And>i. c \<noteq> Focus i"
    by (cases c) auto
  then show ?thesis
  proof cases
  case (Open now a t)
  with assms show ?thesis by (simp add: zbound_openApp)
next
  case (Focus i)
  with assms show ?thesis by (simp add: zbound_focusWindow)
next
  case quiet
  from quiet_step [OF quiet, of s]
  have sub: "(\<lambda>w. (id_w w, zIndex w)) ` set (windows (step s c)) \<subseteq> (\<lambda>w. (id_w w, zIndex w)) ` set (windows s)"
    and nxt: "nextZIndex (step s c) = nextZIndex s"
    by simp_all
  show ?thesis by (rule zbound_transfer [OF idz_zIndex_sub [OF sub] nxt assms])
  qed
qed

lemma zbound_run: "zbound s \<Longrightarrow> zbound (run cs s)"
  by (induction cs arbitrary: s) (simp_all add: zbound_step)

lemma zbound_session: "zbound (session cs)"
  by (simp add: session_def zbound_run zbound_initial)

section \<open>The counter never goes down\<close>

lemma nextZIndex_step: "nextZIndex s \<le> nextZIndex (step s c)"
  by (cases c)
    (simp_all add: openApp_def focusWindow_next closeWindow_def minimizeWindow_def
       maximizeWindow_def updateWindowPosition_def updateWindowSize_def split: option.split)

lemma nextZIndex_run: "nextZIndex s \<le> nextZIndex (run cs s)"
proof (induction cs arbitrary: s)
  case Nil
  show ?case by simp
next
  case (Cons c cs)
  have "nextZIndex s \<le> nextZIndex (step s c)" by (rule nextZIndex_step)
  also have "\<dots> \<le> nextZIndex (run cs (step s c))" by (rule Cons.IH)
  finally show ?case by simp
qed

section \<open>Windows with different ids have different z-indexes\<close>

lemma zsep_focusWindow:
  assumes "zbound s" "zsep s"
  shows "zsep (focusWindow s i)"
  unfolding zsep_def
proof (intro ballI impI)
  fix a b
  assume a: "a \<in> set (windows (focusWindow s i))"
    and b: "b \<in> set (windows (focusWindow s i))"
    and ne: "id_w a \<noteq> id_w b"
  show "zIndex a \<noteq> zIndex b"
  proof (cases "id_w a = i")
    case True
    with ne have bi: "id_w b \<noteq> i" by simp
    have "zIndex a = nextZIndex s" using focusWindow_hit [OF a True] by simp
    moreover have "zIndex b < nextZIndex s"
      using focusWindow_miss [OF b bi] assms(1) by (simp add: zbound_def)
    ultimately show ?thesis by simp
  next
    case False
    note ai = this
    show ?thesis
    proof (cases "id_w b = i")
      case True
      have "zIndex b = nextZIndex s" using focusWindow_hit [OF b True] by simp
      moreover have "zIndex a < nextZIndex s"
        using focusWindow_miss [OF a ai] assms(1) by (simp add: zbound_def)
      ultimately show ?thesis by simp
    next
      case False
      from focusWindow_miss [OF a ai] focusWindow_miss [OF b False] ne assms(2)
      show ?thesis by (simp add: zsep_def)
    qed
  qed
qed

lemma zsep_openApp:
  assumes "zbound s" "zsep s"
  shows "zsep (snd (openApp now s a t))"
proof (cases "find (\<lambda>w. component w = a) (windows s)")
  case None
  with assms show ?thesis
    by (fastforce simp: openApp_def zbound_def zsep_def)
next
  case (Some e)
  with assms show ?thesis
    by (simp add: openApp_def zsep_focusWindow)
qed

lemma zsep_step:
  assumes "zbound s" "zsep s"
  shows "zsep (step s c)"
proof -
  consider (Open) now a t where "c = Open now a t" | (Focus) i where "c = Focus i"
    | (quiet) "\<And>now a t. c \<noteq> Open now a t" "\<And>i. c \<noteq> Focus i"
    by (cases c) auto
  then show ?thesis
  proof cases
  case (Open now a t)
  with assms show ?thesis by (simp add: zsep_openApp)
next
  case (Focus i)
  with assms show ?thesis by (simp add: zsep_focusWindow)
next
  case quiet
  from quiet_step [OF quiet, of s]
  have sub: "(\<lambda>w. (id_w w, zIndex w)) ` set (windows (step s c)) \<subseteq> (\<lambda>w. (id_w w, zIndex w)) ` set (windows s)"
    by simp
  show ?thesis by (rule zsep_transfer [OF sub assms(2)])
  qed
qed

lemma zsep_run: "zbound s \<Longrightarrow> zsep s \<Longrightarrow> zsep (run cs s)"
  by (induction cs arbitrary: s) (simp_all add: zsep_step zbound_step)

lemma zsep_session: "zsep (session cs)"
  unfolding session_def by (rule zsep_run [OF zbound_initial]) (simp add: zsep_def initial_def)

lemma zsep_distinct:
  assumes "zsep s" "distinct (map id_w (windows s))"
  shows "distinct (map zIndex (windows s))"
proof -
  from assms(2) have d: "distinct (windows s)" and inj: "inj_on id_w (set (windows s))"
    by (simp_all add: distinct_map)
  have "inj_on zIndex (set (windows s))"
  proof (rule inj_onI)
    fix a b
    assume "a \<in> set (windows s)" "b \<in> set (windows s)" "zIndex a = zIndex b"
    with assms(1) have "id_w a = id_w b" unfolding zsep_def by blast
    with inj \<open>a \<in> set (windows s)\<close> \<open>b \<in> set (windows s)\<close> show "a = b"
      by (simp add: inj_on_def)
  qed
  with d show ?thesis by (simp add: distinct_map)
qed

section \<open>Closing\<close>

text \<open>
  C6. Closing a window twice gives the same state as closing it once, and closing an id
  that no window has leaves the whole state (window list and counter) as it was. The
  handler has no failing path.
\<close>

theorem closeWindow_idempotent:
  "closeWindow (closeWindow s i) i = closeWindow s i \<and>
   ((\<forall>w \<in> set (windows s). id_w w \<noteq> i) \<longrightarrow> closeWindow s i = s)"
  by (simp add: closeWindow_def)

theorem closeWindow_idempotent_witness:
  "closeWindow (closeWindow (session [Open 1 ''NotesApp'' ''Notes'']) ''2'') ''2''
     = closeWindow (session [Open 1 ''NotesApp'' ''Notes'']) ''2'' \<and>
   closeWindow (session [Open 1 ''NotesApp'' ''Notes'']) ''2''
     = session [Open 1 ''NotesApp'' ''Notes'']"
  using closeWindow_idempotent [of "session [Open 1 ''NotesApp'' ''Notes'']" "''2''"]
  by (simp add: session_def initial_def openApp_def toString.simps digit_def)

section \<open>Minimizing and maximizing\<close>

text \<open>
  C8 as stated fails: the handler minimizes every window that has the given id. Two
  windows opened at the same clock reading share their id, and minimizing it minimizes
  both, so a window other than the one meant is changed.
\<close>

theorem minimizeWindow_hits_shared_id:
  "map id_w (windows (session [Open 5 ''FileManager'' ''File Manager'',
                               Open 5 ''Terminal'' ''Terminal''])) = [''5'', ''5''] \<and>
   map component (windows (session [Open 5 ''FileManager'' ''File Manager'',
                                    Open 5 ''Terminal'' ''Terminal'']))
     = [''FileManager'', ''Terminal''] \<and>
   map isMinimized (windows (session [Open 5 ''FileManager'' ''File Manager'',
                                      Open 5 ''Terminal'' ''Terminal''])) = [False, False] \<and>
   map isMinimized (windows (minimizeWindow (session [Open 5 ''FileManager'' ''File Manager'',
                                      Open 5 ''Terminal'' ''Terminal'']) ''5'')) = [True, True] \<and>
   windows (minimizeWindow (session [Open 5 ''FileManager'' ''File Manager'',
                                     Open 5 ''Terminal'' ''Terminal'']) ''5'') ! 1
     \<noteq> windows (session [Open 5 ''FileManager'' ''File Manager'',
                          Open 5 ''Terminal'' ''Terminal'']) ! 1"
  by (simp add: session_def initial_def openApp_def toString.simps digit_def minimizeWindow_def)

text \<open>
  C8, amended. After \<open>minimizeWindow\<close> every window with the given id is the window it
  was with \<open>isMinimized\<close> set (so id, title, component, \<open>isMaximized\<close>, position, size
  and \<open>zIndex\<close> are as before), every window with another id is untouched, no window is
  added or removed, and the counter is unchanged.
\<close>

theorem minimizeWindow_frame:
  "length (windows (minimizeWindow s i)) = length (windows s) \<and>
   nextZIndex (minimizeWindow s i) = nextZIndex s \<and>
   (\<forall>k < length (windows s).
      (id_w (windows s ! k) = i \<longrightarrow>
         windows (minimizeWindow s i) ! k = (windows s ! k)\<lparr>isMinimized := True\<rparr> \<and>
         isMinimized (windows (minimizeWindow s i) ! k) \<and>
         zIndex (windows (minimizeWindow s i) ! k) = zIndex (windows s ! k) \<and>
         position (windows (minimizeWindow s i) ! k) = position (windows s ! k) \<and>
         size_w (windows (minimizeWindow s i) ! k) = size_w (windows s ! k) \<and>
         id_w (windows (minimizeWindow s i) ! k) = id_w (windows s ! k) \<and>
         title (windows (minimizeWindow s i) ! k) = title (windows s ! k) \<and>
         component (windows (minimizeWindow s i) ! k) = component (windows s ! k) \<and>
         isMaximized (windows (minimizeWindow s i) ! k) = isMaximized (windows s ! k)) \<and>
      (id_w (windows s ! k) \<noteq> i \<longrightarrow>
         windows (minimizeWindow s i) ! k = windows s ! k))"
  by (simp add: minimizeWindow_def)

theorem minimizeWindow_frame_witness:
  "windows (minimizeWindow (session [Open 1 ''NotesApp'' ''Notes'', Open 2 ''Terminal'' ''Terminal'']) ''1'') ! 0
     = (windows (session [Open 1 ''NotesApp'' ''Notes'', Open 2 ''Terminal'' ''Terminal'']) ! 0)\<lparr>isMinimized := True\<rparr> \<and>
   windows (minimizeWindow (session [Open 1 ''NotesApp'' ''Notes'', Open 2 ''Terminal'' ''Terminal'']) ''1'') ! 1
     = windows (session [Open 1 ''NotesApp'' ''Notes'', Open 2 ''Terminal'' ''Terminal'']) ! 1 \<and>
   zIndex (windows (minimizeWindow (session [Open 1 ''NotesApp'' ''Notes'', Open 2 ''Terminal'' ''Terminal'']) ''1'') ! 0) = 1000"
  using minimizeWindow_frame
    [of "session [Open 1 ''NotesApp'' ''Notes'', Open 2 ''Terminal'' ''Terminal'']" "''1''"]
  by (simp add: session_def initial_def openApp_def toString.simps digit_def)

text \<open>
  C7. Two \<open>maximizeWindow\<close> calls in a row leave every window's stored position and size
  (and id and \<open>isMaximized\<close> flag) as they were before the first call: the handler only
  flips \<open>isMaximized\<close> and clears \<open>isMinimized\<close>, so one call already leaves the stored
  position and size alone, and after two calls the state is the original one with
  \<open>isMinimized\<close> cleared in the windows with the given id.
\<close>

theorem maximizeWindow_twice:
  "map position (windows (maximizeWindow (maximizeWindow s i) i)) = map position (windows s) \<and>
   map size_w (windows (maximizeWindow (maximizeWindow s i) i)) = map size_w (windows s) \<and>
   map isMaximized (windows (maximizeWindow (maximizeWindow s i) i)) = map isMaximized (windows s) \<and>
   map id_w (windows (maximizeWindow (maximizeWindow s i) i)) = map id_w (windows s) \<and>
   map position (windows (maximizeWindow s i)) = map position (windows s) \<and>
   map size_w (windows (maximizeWindow s i)) = map size_w (windows s) \<and>
   windows (maximizeWindow (maximizeWindow s i) i)
     = map (\<lambda>w. if id_w w = i then w\<lparr>isMinimized := False\<rparr> else w) (windows s) \<and>
   nextZIndex (maximizeWindow (maximizeWindow s i) i) = nextZIndex s"
  by (simp add: maximizeWindow_def comp_def if_distrib cong: if_cong)

section \<open>Resizing\<close>




section \<open>Focusing\<close>

text \<open>
  C1 as stated fails: the handler gives the counter value to every window that has the
  given id. Two windows opened at the same clock reading share their id, and after
  focusing it neither z-index is strictly greater than the other.
\<close>

theorem focusWindow_ties_shared_id:
  "map id_w (windows (session [Open 5 ''FileManager'' ''File Manager'',
                               Open 5 ''Terminal'' ''Terminal''])) = [''5'', ''5''] \<and>
   map zIndex (windows (focusWindow (session [Open 5 ''FileManager'' ''File Manager'',
                                              Open 5 ''Terminal'' ''Terminal'']) ''5''))
     = [1002, 1002] \<and>
   \<not> zIndex (windows (focusWindow (session [Open 5 ''FileManager'' ''File Manager'',
                                             Open 5 ''Terminal'' ''Terminal'']) ''5'') ! 1)
       < zIndex (windows (focusWindow (session [Open 5 ''FileManager'' ''File Manager'',
                                               Open 5 ''Terminal'' ''Terminal'']) ''5'') ! 0)"
  by (simp add: session_def initial_def openApp_def toString.simps digit_def focusWindow_def)

text \<open>
  C1, amended. In every state a session can reach, if some window has the given id then
  after \<open>focusWindow\<close> there still is one, and every window with that id is not minimized
  and has a z-index that no window exceeds and that is strictly greater than the z-index
  of every window with another id; when the ids in the array are pairwise distinct it is
  strictly greater than the z-index of every other entry of the array. In particular a
  window minimized and then focused is not minimized.
\<close>

theorem focusWindow_topmost:
  assumes "\<exists>w \<in> set (windows (session cs)). id_w w = i"
  shows "(\<exists>w \<in> set (windows (focusWindow (session cs) i)). id_w w = i) \<and>
         (\<forall>w \<in> set (windows (focusWindow (session cs) i)). id_w w = i \<longrightarrow>
            \<not> isMinimized w \<and>
            (\<forall>v \<in> set (windows (focusWindow (session cs) i)).
               zIndex v \<le> zIndex w \<and> (id_w v \<noteq> i \<longrightarrow> zIndex v < zIndex w))) \<and>
         (distinct (map id_w (windows (session cs))) \<longrightarrow>
            (\<forall>k < length (windows (focusWindow (session cs) i)).
               \<forall>j < length (windows (focusWindow (session cs) i)).
                 id_w (windows (focusWindow (session cs) i) ! k) = i \<and> j \<noteq> k \<longrightarrow>
                 zIndex (windows (focusWindow (session cs) i) ! j)
                   < zIndex (windows (focusWindow (session cs) i) ! k))) \<and>
         (\<forall>w \<in> set (windows (focusWindow (minimizeWindow (session cs) i) i)).
            id_w w = i \<longrightarrow> \<not> isMinimized w)"
proof -
  let ?s = "session cs"
  let ?ws = "windows (focusWindow ?s i)"
  have zb: "zbound ?s" by (rule zbound_session)
  have ex: "\<exists>w \<in> set ?ws. id_w w = i"
  proof -
    from assms have "i \<in> set (map id_w (windows ?s))" by auto
    then have "i \<in> set (map id_w ?ws)" by (simp only: focusWindow_ids)
    then show ?thesis by auto
  qed
  have top: "\<not> isMinimized w \<and>
       (\<forall>v \<in> set ?ws. zIndex v \<le> zIndex w \<and> (id_w v \<noteq> i \<longrightarrow> zIndex v < zIndex w))"
    if w: "w \<in> set ?ws" and wi: "id_w w = i" for w
  proof (intro conjI ballI impI)
    from focusWindow_hit [OF w wi] show "\<not> isMinimized w" by simp
  next
    fix v assume v: "v \<in> set ?ws"
    have zw: "zIndex w = nextZIndex ?s" using focusWindow_hit [OF w wi] by simp
    show "zIndex v \<le> zIndex w"
    proof (cases "id_w v = i")
      case True
      with focusWindow_hit [OF v] zw show ?thesis by simp
    next
      case False
      with focusWindow_miss [OF v] zb zw show ?thesis by (fastforce simp: zbound_def)
    qed
  next
    fix v assume v: "v \<in> set ?ws" and ne: "id_w v \<noteq> i"
    have zw: "zIndex w = nextZIndex ?s" using focusWindow_hit [OF w wi] by simp
    from focusWindow_miss [OF v ne] zb zw show "zIndex v < zIndex w"
      by (simp add: zbound_def)
  qed
  have pos: "zIndex (?ws ! j) < zIndex (?ws ! k)"
    if d: "distinct (map id_w (windows ?s))" and k: "k < length ?ws" and j: "j < length ?ws"
      and ki: "id_w (?ws ! k) = i" and jk: "j \<noteq> k" for j k
  proof -
    from d have d': "distinct (map id_w ?ws)" by (simp only: focusWindow_ids)
    from k j jk d' have "map id_w ?ws ! j \<noteq> map id_w ?ws ! k"
      by (simp add: nth_eq_iff_index_eq del: nth_map)
    with k j ki have "id_w (?ws ! j) \<noteq> i" by simp
    moreover from k have "?ws ! k \<in> set ?ws" by simp
    moreover from j have "?ws ! j \<in> set ?ws" by simp
    ultimately show ?thesis using top [OF _ ki] by blast
  qed
  have mf: "\<forall>w \<in> set (windows (focusWindow (minimizeWindow ?s i) i)). id_w w = i \<longrightarrow> \<not> isMinimized w"
    using focusWindow_hit by blast
  from ex top pos mf show ?thesis by blast
qed

theorem focusWindow_topmost_witness:
  "map id_w (windows (session [Open 1 ''NotesApp'' ''Notes'', Open 2 ''Terminal'' ''Terminal'',
                                Minimize ''1'']))
     = [''1'', ''2''] \<and>
   map isMinimized (windows (session [Open 1 ''NotesApp'' ''Notes'', Open 2 ''Terminal'' ''Terminal'',
                                      Minimize ''1'']))
     = [True, False] \<and>
   map isMinimized (windows (focusWindow (session [Open 1 ''NotesApp'' ''Notes'',
       Open 2 ''Terminal'' ''Terminal'', Minimize ''1'']) ''1''))
     = [False, False] \<and>
   map zIndex (windows (focusWindow (session [Open 1 ''NotesApp'' ''Notes'',
       Open 2 ''Terminal'' ''Terminal'', Minimize ''1'']) ''1''))
     = [1002, 1001]"
  using focusWindow_topmost
    [of "[Open 1 ''NotesApp'' ''Notes'', Open 2 ''Terminal'' ''Terminal'', Minimize ''1'']" "''1''"]
  by (simp add: session_def initial_def openApp_def toString.simps digit_def
        minimizeWindow_def focusWindow_def)

section \<open>Focusing an id no window has\<close>

text \<open>
  C10. When no window has the given id, \<open>focusWindow\<close> leaves the window array as it was
  but still advances the counter by one, so the state has changed. The next window
  created then gets the value one above the one it would have got, and so does the next
  window focused: one z-index value is skipped.
\<close>

theorem focusWindow_stale_id:
  assumes "\<forall>w \<in> set (windows s). id_w w \<noteq> i"
  shows "windows (focusWindow s i) = windows s \<and>
         nextZIndex (focusWindow s i) = nextZIndex s + 1 \<and>
         focusWindow s i \<noteq> s \<and>
         (find (\<lambda>w. component w = a) (windows s) = None \<longrightarrow>
            zIndex (last (windows (snd (openApp now s a t)))) = nextZIndex s \<and>
            zIndex (last (windows (snd (openApp now (focusWindow s i) a t)))) = nextZIndex s + 1) \<and>
         (\<forall>w \<in> set (windows (focusWindow s j)). id_w w = j \<longrightarrow> zIndex w = nextZIndex s) \<and>
         (\<forall>w \<in> set (windows (focusWindow (focusWindow s i) j)).
            id_w w = j \<longrightarrow> zIndex w = nextZIndex s + 1)"
proof -
  have same: "windows (focusWindow s i) = windows s"
    using assms by (rule focusWindow_absent)
  have nxt: "nextZIndex (focusWindow s i) = nextZIndex s + 1"
    by (rule focusWindow_next)
  have neq: "focusWindow s i \<noteq> s"
  proof
    assume "focusWindow s i = s"
    then have "nextZIndex (focusWindow s i) = nextZIndex s" by (rule arg_cong)
    with nxt show False by simp
  qed
  have opn: "find (\<lambda>w. component w = a) (windows s) = None \<longrightarrow>
            zIndex (last (windows (snd (openApp now s a t)))) = nextZIndex s \<and>
            zIndex (last (windows (snd (openApp now (focusWindow s i) a t)))) = nextZIndex s + 1"
    by (simp add: openApp_def same nxt)
  have f1: "\<forall>w \<in> set (windows (focusWindow s j)). id_w w = j \<longrightarrow> zIndex w = nextZIndex s"
    using focusWindow_hit by blast
  have f2: "\<forall>w \<in> set (windows (focusWindow (focusWindow s i) j)).
            id_w w = j \<longrightarrow> zIndex w = nextZIndex s + 1"
    using focusWindow_hit [of _ "focusWindow s i" j] nxt by simp
  from same nxt neq opn f1 f2 show ?thesis by blast
qed

theorem focusWindow_stale_id_witness:
  "windows (focusWindow (session [Open 1 ''NotesApp'' ''Notes'']) ''9'')
     = windows (session [Open 1 ''NotesApp'' ''Notes'']) \<and>
   nextZIndex (session [Open 1 ''NotesApp'' ''Notes'']) = 1001 \<and>
   nextZIndex (focusWindow (session [Open 1 ''NotesApp'' ''Notes'']) ''9'') = 1002 \<and>
   zIndex (last (windows (snd (openApp 2 (session [Open 1 ''NotesApp'' ''Notes''])
                                 ''Terminal'' ''Terminal'')))) = 1001 \<and>
   zIndex (last (windows (snd (openApp 2 (focusWindow (session [Open 1 ''NotesApp'' ''Notes'']) ''9'')
                                 ''Terminal'' ''Terminal'')))) = 1002"
  using focusWindow_stale_id
    [of "session [Open 1 ''NotesApp'' ''Notes'']" "''9''" "''Terminal''" 2 "''Terminal''"]
  by (simp add: session_def initial_def openApp_def toString.simps digit_def focusWindow_def)

section \<open>The z-index counter over a session\<close>

text \<open>
  C4 as stated fails: two windows opened at the same clock reading get the same id, and
  focusing that id gives both of them the same z-index.
\<close>

theorem zIndex_shared_after_focus:
  "map id_w (windows (session [Open 5 ''FileManager'' ''File Manager'',
                               Open 5 ''Terminal'' ''Terminal'', Focus ''5'']))
     = [''5'', ''5''] \<and>
   map zIndex (windows (session [Open 5 ''FileManager'' ''File Manager'',
                                 Open 5 ''Terminal'' ''Terminal'', Focus ''5'']))
     = [1002, 1002] \<and>
   \<not> distinct (map zIndex (windows (session [Open 5 ''FileManager'' ''File Manager'',
                                             Open 5 ''Terminal'' ''Terminal'', Focus ''5''])))"
  by (simp add: session_def initial_def openApp_def toString.simps digit_def focusWindow_def)

text \<open>
  C4, amended. In every state a session can reach: no two windows with different ids share
  a z-index (so when the ids in the array are pairwise distinct, no two windows share
  one); every window's z-index is below the counter, at least 1000, and above the z-index
  of the taskbar and of the desktop icons; the counter is at least 1000 and no handler
  call and no continuation of the session makes it smaller.
\<close>

theorem zIndex_invariants:
  "(\<forall>a \<in> set (windows (session cs)). \<forall>b \<in> set (windows (session cs)).
      id_w a \<noteq> id_w b \<longrightarrow> zIndex a \<noteq> zIndex b) \<and>
   (distinct (map id_w (windows (session cs))) \<longrightarrow> distinct (map zIndex (windows (session cs)))) \<and>
   (\<forall>w \<in> set (windows (session cs)).
      zIndex w < nextZIndex (session cs) \<and> 1000 \<le> zIndex w \<and>
      taskbar_zIndex < zIndex w \<and> desktopIcons_zIndex < zIndex w) \<and>
   1000 \<le> nextZIndex (session cs) \<and>
   nextZIndex (session cs) \<le> nextZIndex (step (session cs) c) \<and>
   nextZIndex (session cs) \<le> nextZIndex (session (cs @ ds))"
proof -
  have zs: "zsep (session cs)" by (rule zsep_session)
  have zb: "zbound (session cs)" by (rule zbound_session)
  have sep: "\<forall>a \<in> set (windows (session cs)). \<forall>b \<in> set (windows (session cs)).
      id_w a \<noteq> id_w b \<longrightarrow> zIndex a \<noteq> zIndex b"
    using zs by (simp add: zsep_def)
  have dist: "distinct (map id_w (windows (session cs))) \<longrightarrow> distinct (map zIndex (windows (session cs)))"
    using zsep_distinct [OF zs] by simp
  have bnd: "\<forall>w \<in> set (windows (session cs)).
      zIndex w < nextZIndex (session cs) \<and> 1000 \<le> zIndex w \<and>
      taskbar_zIndex < zIndex w \<and> desktopIcons_zIndex < zIndex w"
    using zb by (fastforce simp: zbound_def taskbar_zIndex_def desktopIcons_zIndex_def)
  have seed: "1000 \<le> nextZIndex (session cs)"
    using zb by (simp add: zbound_def)
  have mono: "nextZIndex (session cs) \<le> nextZIndex (session (cs @ ds))"
    by (simp add: session_def run_append nextZIndex_run)
  from sep dist bnd seed nextZIndex_step [of "session cs" c] mono show ?thesis by blast
qed

theorem zIndex_invariants_witness:
  "map id_w (windows (session [Open 1 ''NotesApp'' ''Notes'', Open 2 ''Terminal'' ''Terminal'',
                               Focus ''1''])) = [''1'', ''2''] \<and>
   map zIndex (windows (session [Open 1 ''NotesApp'' ''Notes'', Open 2 ''Terminal'' ''Terminal'',
                                 Focus ''1''])) = [1002, 1001] \<and>
   distinct (map zIndex (windows (session [Open 1 ''NotesApp'' ''Notes'',
                                           Open 2 ''Terminal'' ''Terminal'', Focus ''1'']))) \<and>
   nextZIndex (session [Open 1 ''NotesApp'' ''Notes'', Open 2 ''Terminal'' ''Terminal'',
                        Focus ''1'']) = 1003 \<and>
   nextZIndex (session ([Open 1 ''NotesApp'' ''Notes'', Open 2 ''Terminal'' ''Terminal'',
                         Focus ''1''] @ [Close ''2'', Focus ''1''])) = 1004 \<and>
   taskbar_zIndex < 1001"
  using zIndex_invariants
    [of "[Open 1 ''NotesApp'' ''Notes'', Open 2 ''Terminal'' ''Terminal'', Focus ''1'']"
        "Minimize ''1''" "[Close ''2'', Focus ''1'']"]
  by (simp add: session_def initial_def openApp_def toString.simps digit_def focusWindow_def
        closeWindow_def taskbar_zIndex_def)

section \<open>Opening\<close>

text \<open>
  C2 as stated fails: \<open>openApp\<close> returns nothing. Reopening the application type of the
  window with id 1 evaluates to \<open>undefined\<close>, not to that id.
\<close>

theorem openApp_returns_nothing:
  "map id_w (windows (session [Open 1 ''NotesApp'' ''Notes''])) = [''1''] \<and>
   fst (openApp 2 (session [Open 1 ''NotesApp'' ''Notes'']) ''NotesApp'' ''Notes'') = None \<and>
   fst (openApp 2 (session [Open 1 ''NotesApp'' ''Notes'']) ''NotesApp'' ''Notes'') \<noteq> Some ''1'' \<and>
   fst (openApp 2 (session [Open 1 ''NotesApp'' ''Notes'']) ''Terminal'' ''Terminal'') = None"
  by (simp add: session_def initial_def openApp_def toString.simps digit_def)

text \<open>
  C2, amended. In every state a session can reach, \<open>openApp\<close> returns nothing. If some
  window has the application type, the first such window \<open>e\<close> is focused: the call is
  \<open>focusWindow\<close> on its id, no window is added or removed, the ids in the array stay as
  they were, and \<open>e\<close> with its new z-index is in the array and no window has a greater
  z-index. Otherwise exactly one window is appended: its id is the decimal form of the
  clock reading, it has the given type and title, the next z-index, the default size, a
  position staggered by the number of windows, and is neither minimized nor maximized.
\<close>

theorem openApp_reopen_or_create:
  "(\<forall>e. find (\<lambda>w. component w = a) (windows (session cs)) = Some e \<longrightarrow>
      (\<exists>w \<in> set (windows (session cs)). component w = a) \<and>
      openApp now (session cs) a t = (None, focusWindow (session cs) (id_w e)) \<and>
      length (windows (snd (openApp now (session cs) a t))) = length (windows (session cs)) \<and>
      map id_w (windows (snd (openApp now (session cs) a t))) = map id_w (windows (session cs)) \<and>
      e\<lparr>zIndex := nextZIndex (session cs), isMinimized := False\<rparr>
        \<in> set (windows (snd (openApp now (session cs) a t))) \<and>
      (\<forall>v \<in> set (windows (snd (openApp now (session cs) a t))).
         zIndex v \<le> nextZIndex (session cs))) \<and>
   (find (\<lambda>w. component w = a) (windows (session cs)) = None \<longrightarrow>
      \<not> (\<exists>w \<in> set (windows (session cs)). component w = a) \<and>
      fst (openApp now (session cs) a t) = None \<and>
      length (windows (snd (openApp now (session cs) a t))) = Suc (length (windows (session cs))) \<and>
      butlast (windows (snd (openApp now (session cs) a t))) = windows (session cs) \<and>
      last (windows (snd (openApp now (session cs) a t))) =
        \<lparr>id_w = toString now, title = t, component = a,
         isMinimized = False, isMaximized = False,
         position = \<lparr>x = 100 + int (length (windows (session cs))) * 30,
                     y = 100 + int (length (windows (session cs))) * 30\<rparr>,
         size_w = \<lparr>width = 800, height = 600\<rparr>,
         zIndex = nextZIndex (session cs)\<rparr> \<and>
      nextZIndex (snd (openApp now (session cs) a t)) = nextZIndex (session cs) + 1)"
proof (intro conjI allI impI)
  fix e
  assume f: "find (\<lambda>w. component w = a) (windows (session cs)) = Some e"
  let ?s = "session cs"
  have zb: "zbound ?s" by (rule zbound_session)
  from f have e: "e \<in> set (windows ?s)" "component e = a"
    by (auto simp: find_Some_iff)
  then show "\<exists>w \<in> set (windows ?s). component w = a" by blast
  from f show call: "openApp now ?s a t = (None, focusWindow ?s (id_w e))"
    by (simp add: openApp_def)
  have ids: "map id_w (windows (snd (openApp now ?s a t))) = map id_w (windows ?s)"
    by (simp add: call focusWindow_ids)
  then show "map id_w (windows (snd (openApp now ?s a t))) = map id_w (windows ?s)" .
  from ids show "length (windows (snd (openApp now ?s a t))) = length (windows ?s)"
    by (rule map_eq_imp_length_eq)
  from e(1) show "e\<lparr>zIndex := nextZIndex ?s, isMinimized := False\<rparr>
        \<in> set (windows (snd (openApp now ?s a t)))"
    by (force simp: call focusWindow_def)
  show "\<forall>v \<in> set (windows (snd (openApp now ?s a t))). zIndex v \<le> nextZIndex ?s"
  proof
    fix v assume "v \<in> set (windows (snd (openApp now ?s a t)))"
    then have v: "v \<in> set (windows (focusWindow ?s (id_w e)))" by (simp add: call)
    show "zIndex v \<le> nextZIndex ?s"
    proof (cases "id_w v = id_w e")
      case True
      with focusWindow_hit [OF v] show ?thesis by simp
    next
      case False
      with focusWindow_miss [OF v] zb show ?thesis by (fastforce simp: zbound_def)
    qed
  qed
next
  assume f: "find (\<lambda>w. component w = a) (windows (session cs)) = None"
  then show "\<not> (\<exists>w \<in> set (windows (session cs)). component w = a)"
    by (simp add: find_None_iff)
  from f show "fst (openApp now (session cs) a t) = None"
    and "length (windows (snd (openApp now (session cs) a t))) = Suc (length (windows (session cs)))"
    and "butlast (windows (snd (openApp now (session cs) a t))) = windows (session cs)"
    and "nextZIndex (snd (openApp now (session cs) a t)) = nextZIndex (session cs) + 1"
    by (simp_all add: openApp_def)
  from f show "last (windows (snd (openApp now (session cs) a t))) =
        \<lparr>id_w = toString now, title = t, component = a,
         isMinimized = False, isMaximized = False,
         position = \<lparr>x = 100 + int (length (windows (session cs))) * 30,
                     y = 100 + int (length (windows (session cs))) * 30\<rparr>,
         size_w = \<lparr>width = 800, height = 600\<rparr>,
         zIndex = nextZIndex (session cs)\<rparr>"
    by (simp add: openApp_def)
qed

theorem openApp_reopen_or_create_witness:
  "map id_w (windows (snd (openApp 3 (session [Open 1 ''NotesApp'' ''Notes'',
       Open 2 ''Terminal'' ''Terminal'']) ''NotesApp'' ''Notes''))) = [''1'', ''2''] \<and>
   map zIndex (windows (snd (openApp 3 (session [Open 1 ''NotesApp'' ''Notes'',
       Open 2 ''Terminal'' ''Terminal'']) ''NotesApp'' ''Notes''))) = [1002, 1001] \<and>
   map id_w (windows (snd (openApp 3 (session [Open 1 ''NotesApp'' ''Notes'',
       Open 2 ''Terminal'' ''Terminal'']) ''Browser'' ''Browser''))) = [''1'', ''2'', ''3''] \<and>
   map zIndex (windows (snd (openApp 3 (session [Open 1 ''NotesApp'' ''Notes'',
       Open 2 ''Terminal'' ''Terminal'']) ''Browser'' ''Browser''))) = [1000, 1001, 1002]"
  using openApp_reopen_or_create
    [of "''NotesApp''" "[Open 1 ''NotesApp'' ''Notes'', Open 2 ''Terminal'' ''Terminal'']"
        3 "''Notes''"]
    openApp_reopen_or_create
    [of "''Browser''" "[Open 1 ''NotesApp'' ''Notes'', Open 2 ''Terminal'' ''Terminal'']"
        3 "''Browser''"]
  by (simp add: session_def initial_def openApp_def toString.simps digit_def focusWindow_def)

section \<open>What the taskbar shows\<close>

lemma quickLaunch_isOpen:
  "b \<in> set (quickLaunch ws) \<Longrightarrow> ql_isOpen b \<longleftrightarrow> (\<exists>w \<in> set ws. component w = ql_key b)"
  by (auto simp: quickLaunch_def quickLaunchApps_def list_ex_iff)

text \<open>
  C9. The open-window area has exactly one button per window that is not minimized, in
  the order of the array, keyed by that window's id, and a click on it calls
  \<open>focusWindow\<close> with that id. A quick-launch button is highlighted exactly when some
  window in the array has its application type, minimized or not.
\<close>

theorem taskbar_view:
  "length (openWindows ws) = length (filter (\<lambda>w. \<not> isMinimized w) ws) \<and>
   map wb_key (openWindows ws) = map id_w (filter (\<lambda>w. \<not> isMinimized w) ws) \<and>
   (\<forall>k < length (openWindows ws).
      wb_onClick (openWindows ws ! k) = onWindowClick (id_w (filter (\<lambda>w. \<not> isMinimized w) ws ! k)) \<and>
      call now s (wb_onClick (openWindows ws ! k))
        = focusWindow s (id_w (filter (\<lambda>w. \<not> isMinimized w) ws ! k))) \<and>
   map ql_key (quickLaunch ws) = [''FileManager'', ''CodeEditor'', ''AIAssistant'', ''Terminal''] \<and>
   (\<forall>b \<in> set (quickLaunch ws). ql_isOpen b \<longleftrightarrow> (\<exists>w \<in> set ws. component w = ql_key b))"
proof -
  have a: "length (openWindows ws) = length (filter (\<lambda>w. \<not> isMinimized w) ws)"
    and b: "map wb_key (openWindows ws) = map id_w (filter (\<lambda>w. \<not> isMinimized w) ws)"
    by (simp_all add: openWindows_def comp_def)
  have c: "\<forall>k < length (openWindows ws).
      wb_onClick (openWindows ws ! k) = onWindowClick (id_w (filter (\<lambda>w. \<not> isMinimized w) ws ! k)) \<and>
      call now s (wb_onClick (openWindows ws ! k))
        = focusWindow s (id_w (filter (\<lambda>w. \<not> isMinimized w) ws ! k))"
    by (simp add: openWindows_def)
  have d: "map ql_key (quickLaunch ws) = [''FileManager'', ''CodeEditor'', ''AIAssistant'', ''Terminal'']"
    by (simp add: quickLaunch_def quickLaunchApps_def)
  from a b c d quickLaunch_isOpen [of _ ws] show ?thesis by blast
qed

theorem taskbar_view_witness:
  "map wb_key (openWindows (windows (session
      [Open 1 ''Terminal'' ''Terminal'', Open 2 ''NotesApp'' ''Notes'', Minimize ''1''])))
     = [''2''] \<and>
   call 3 (session [Open 1 ''Terminal'' ''Terminal'', Open 2 ''NotesApp'' ''Notes'', Minimize ''1''])
        (wb_onClick (openWindows (windows (session
           [Open 1 ''Terminal'' ''Terminal'', Open 2 ''NotesApp'' ''Notes'', Minimize ''1''])) ! 0))
     = focusWindow (session [Open 1 ''Terminal'' ''Terminal'', Open 2 ''NotesApp'' ''Notes'', Minimize ''1''])
         ''2'' \<and>
   map ql_isOpen (quickLaunch (windows (session
      [Open 1 ''Terminal'' ''Terminal'', Open 2 ''NotesApp'' ''Notes'', Minimize ''1''])))
     = [False, False, False, True]"
  using taskbar_view
    [of "windows (session [Open 1 ''Terminal'' ''Terminal'', Open 2 ''NotesApp'' ''Notes'', Minimize ''1''])"
        3 "session [Open 1 ''Terminal'' ''Terminal'', Open 2 ''NotesApp'' ''Notes'', Minimize ''1'']"]
  by (simp add: session_def initial_def openApp_def toString.simps digit_def
        minimizeWindow_def openWindows_def quickLaunch_def quickLaunchApps_def)

section \<open>Window ids\<close>

subsection \<open>Different clock readings print differently\<close>

lemma digit_code:
  assumes "d < 10"
  shows "of_char (digit d) = (48 + d :: nat)"
proof -
  from assms have "d = 0 \<or> d = 1 \<or> d = 2 \<or> d = 3 \<or> d = 4 \<or>
      d = 5 \<or> d = 6 \<or> d = 7 \<or> d = 8 \<or> d = 9"
    by arith
  then show ?thesis by (elim disjE) (simp_all add: digit_def)
qed

lemma digit_inj:
  assumes "d < 10" "e < 10" "digit d = digit e"
  shows "d = e"
proof -
  have "(of_char (digit d) :: nat) = of_char (digit e)" using assms(3) by simp
  with assms(1,2) show ?thesis by (simp add: digit_code)
qed

lemma toString_nonempty: "toString n \<noteq> []"
  by (subst toString.simps) simp

lemma toString_inj: "toString m = toString n \<Longrightarrow> m = n"
proof (induction m arbitrary: n rule: toString.induct)
  case (1 m)
  show ?case
  proof (cases "m < 10")
    case small_m: True
    show ?thesis
    proof (cases "n < 10")
      case True
      with small_m "1.prems" have "digit m = digit n"
        by (simp add: toString.simps [of m] toString.simps [of n])
      with small_m True show ?thesis by (rule digit_inj)
    next
      case False
      with small_m "1.prems" have "toString (n div 10) = []"
        by (simp add: toString.simps [of m] toString.simps [of n])
      with toString_nonempty show ?thesis by blast
    qed
  next
    case big_m: False
    show ?thesis
    proof (cases "n < 10")
      case True
      with big_m "1.prems" have "toString (m div 10) = []"
        by (simp add: toString.simps [of m] toString.simps [of n])
      with toString_nonempty show ?thesis by blast
    next
      case False
      with big_m "1.prems" have q: "toString (m div 10) = toString (n div 10)"
        and r: "digit (m mod 10) = digit (n mod 10)"
        by (simp_all add: toString.simps [of m] toString.simps [of n])
      from "1.IH" [OF big_m q] have "m div 10 = n div 10" .
      moreover from r have "m mod 10 = n mod 10" by (intro digit_inj) simp_all
      ultimately show ?thesis by (metis div_mult_mod_eq)
    qed
  qed
qed

subsection \<open>How the handlers treat ids\<close>

lemma openApp_reopen_ids:
  assumes "find (\<lambda>w. component w = a) (windows s) = Some e"
  shows "map id_w (windows (snd (openApp now s a t))) = map id_w (windows s)"
    and "created s (Open now a t) = []"
proof -
  show m: "map id_w (windows (snd (openApp now s a t))) = map id_w (windows s)"
    using assms by (simp add: openApp_def focusWindow_ids)
  from m have "length (windows (snd (openApp now s a t))) = length (windows s)"
    by (rule map_eq_imp_length_eq)
  then show "created s (Open now a t) = []" by simp
qed

lemma openApp_create_ids:
  assumes "find (\<lambda>w. component w = a) (windows s) = None"
  shows "map id_w (windows (snd (openApp now s a t))) = map id_w (windows s) @ [toString now]"
    and "created s (Open now a t) = [toString now]"
  using assms by (simp_all add: openApp_def)

lemma other_step_ids:
  assumes "\<And>now a t. c \<noteq> Open now a t"
  shows "created s c = []"
    and "id_w ` set (windows (step s c)) \<subseteq> id_w ` set (windows s)"
    and "distinct (map id_w (windows s)) \<Longrightarrow> distinct (map id_w (windows (step s c)))"
proof -
  show "created s c = []"
  proof (cases c)
    case (Open now a t)
    with assms show ?thesis by blast
  qed simp_all
  have keep: "map id_w (windows (step s c)) = map id_w (windows s)
              \<or> map id_w (windows (step s c)) = filter (\<lambda>i. i \<noteq> j) (map id_w (windows s))"
    if "c = Close j \<or> (\<forall>k. c \<noteq> Close k)" for j
  proof (cases c)
    case (Open now a t)
    with assms show ?thesis by blast
  next
    case (Close k)
    with that have "k = j" by simp
    with Close show ?thesis by (simp add: closeWindow_def filter_map comp_def)
  next
    case (Minimize i)
    then show ?thesis by (simp add: minimizeWindow_def comp_def if_distrib cong: if_cong)
  next
    case (Maximize i)
    then show ?thesis by (simp add: maximizeWindow_def comp_def if_distrib cong: if_cong)
  next
    case (Focus i)
    then show ?thesis by (simp add: focusWindow_ids)
  next
    case (Move i p)
    then show ?thesis by (simp add: updateWindowPosition_def comp_def if_distrib cong: if_cong)
  next
    case (Resize i d)
    then show ?thesis by (simp add: updateWindowSize_def comp_def if_distrib cong: if_cong)
  qed
  obtain j where j: "c = Close j \<or> (\<forall>k. c \<noteq> Close k)" by (cases c) auto
  from keep [OF j] show "id_w ` set (windows (step s c)) \<subseteq> id_w ` set (windows s)"
  proof
    assume "map id_w (windows (step s c)) = map id_w (windows s)"
    then have "set (map id_w (windows (step s c))) = set (map id_w (windows s))" by simp
    then show ?thesis by simp
  next
    assume "map id_w (windows (step s c)) = filter (\<lambda>i. i \<noteq> j) (map id_w (windows s))"
    then have "set (map id_w (windows (step s c))) \<subseteq> set (map id_w (windows s))"
      by (simp only: set_filter) blast
    then show ?thesis by simp
  qed
  assume d: "distinct (map id_w (windows s))"
  from keep [OF j] show "distinct (map id_w (windows (step s c)))"
  proof
    assume "map id_w (windows (step s c)) = map id_w (windows s)"
    with d show ?thesis by simp
  next
    assume "map id_w (windows (step s c)) = filter (\<lambda>i. i \<noteq> j) (map id_w (windows s))"
    with d show ?thesis by (simp only: distinct_filter)
  qed
qed

lemma ids_below_other_step:
  assumes "\<And>now a t. c \<noteq> Open now a t" "ids_below b s"
  shows "ids_below b (step s c)"
  unfolding ids_below_def
proof (intro conjI ballI)
  from assms(2) other_step_ids(3) [OF assms(1)]
  show "distinct (map id_w (windows (step s c)))" by (simp add: ids_below_def)
next
  fix w assume "w \<in> set (windows (step s c))"
  with other_step_ids(2) [OF assms(1), of s] obtain v
    where "v \<in> set (windows s)" "id_w w = id_w v" by blast
  with assms(2) show "\<exists>t<b. id_w w = toString t" by (simp add: ids_below_def)
qed

lemma ids_below_reopen:
  assumes "find (\<lambda>w. component w = a) (windows s) = Some e" "ids_below b s"
  shows "ids_below b (snd (openApp now s a t))"
  unfolding ids_below_def
proof (intro conjI ballI)
  from assms(2) show "distinct (map id_w (windows (snd (openApp now s a t))))"
    by (simp add: openApp_reopen_ids(1) [OF assms(1)] ids_below_def)
next
  fix w assume "w \<in> set (windows (snd (openApp now s a t)))"
  then have "id_w w \<in> set (map id_w (windows (snd (openApp now s a t))))" by simp
  then have "id_w w \<in> set (map id_w (windows s))"
    by (simp only: openApp_reopen_ids(1) [OF assms(1)])
  then obtain v where "v \<in> set (windows s)" "id_w w = id_w v" by auto
  with assms(2) show "\<exists>t<b. id_w w = toString t" by (simp add: ids_below_def)
qed

lemma ids_below_create:
  assumes "find (\<lambda>w. component w = a) (windows s) = None" "ids_below b s" "b \<le> now"
  shows "ids_below (Suc now) (snd (openApp now s a t))"
  unfolding ids_below_def
proof (intro conjI ballI)
  have "toString now \<notin> set (map id_w (windows s))"
  proof
    assume "toString now \<in> set (map id_w (windows s))"
    then obtain v where "v \<in> set (windows s)" "id_w v = toString now" by auto
    with assms(2) obtain u where "u < b" "toString now = toString u"
      by (auto simp: ids_below_def)
    with toString_inj have "now < b" by blast
    with assms(3) show False by simp
  qed
  with assms(2) show "distinct (map id_w (windows (snd (openApp now s a t))))"
    by (simp add: openApp_create_ids(1) [OF assms(1)] ids_below_def)
next
  fix w assume "w \<in> set (windows (snd (openApp now s a t)))"
  then have "id_w w \<in> set (map id_w (windows (snd (openApp now s a t))))" by simp
  then have "id_w w \<in> set (map id_w (windows s)) \<or> id_w w = toString now"
    by (simp only: openApp_create_ids(1) [OF assms(1)]) auto
  then show "\<exists>u<Suc now. id_w w = toString u"
  proof
    assume "id_w w \<in> set (map id_w (windows s))"
    then obtain v where "v \<in> set (windows s)" "id_w w = id_w v" by auto
    with assms(2) obtain u where "u < b" "id_w w = toString u" by (auto simp: ids_below_def)
    with assms(3) have "u < Suc now" by simp
    with \<open>id_w w = toString u\<close> show ?thesis by blast
  next
    assume "id_w w = toString now"
    then show ?thesis by blast
  qed
qed

lemma ids_fresh_run:
  assumes "ids_below b s" "sorted_wrt (<) (readings cs)" "\<forall>u \<in> set (readings cs). b \<le> u"
  shows "distinct (map id_w (windows (run cs s))) \<and> distinct (assigned cs s) \<and>
         (\<forall>i \<in> set (assigned cs s). \<exists>u\<ge>b. i = toString u)"
  using assms
proof (induction cs arbitrary: s b)
  case Nil
  then show ?case by (simp add: ids_below_def)
next
  case (Cons c cs)
  consider (Open) now a t where "c = Open now a t"
    | (other) "\<And>now a t. c \<noteq> Open now a t"
    by (cases c) auto
  then show ?case
  proof cases
    case other
    have rd: "readings (c # cs) = readings cs"
    proof (cases c)
      case (Open now a t)
      with other show ?thesis by blast
    qed simp_all
    from Cons.IH [OF ids_below_other_step [OF other Cons.prems(1)]] Cons.prems(2,3) rd
    show ?thesis by (simp add: other_step_ids(1) [OF other])
  next
    case (Open now a t)
    with Cons.prems have bn: "b \<le> now" and srt: "sorted_wrt (<) (readings cs)"
      and later: "\<forall>u \<in> set (readings cs). now < u"
      by auto
    show ?thesis
    proof (cases "find (\<lambda>w. component w = a) (windows s)")
      case (Some e)
      from later bn have "\<forall>u \<in> set (readings cs). b \<le> u" by fastforce
      from Cons.IH [OF ids_below_reopen [OF Some Cons.prems(1)] srt this, of now t] Open
      show ?thesis by (simp add: openApp_reopen_ids(2) [OF Some] del: created.simps)
    next
      case None
      from later have "\<forall>u \<in> set (readings cs). Suc now \<le> u" by fastforce
      from Cons.IH [OF ids_below_create [OF None Cons.prems(1) bn] srt this, of t]
      have d1: "distinct (map id_w (windows (run cs (snd (openApp now s a t)))))"
        and d2: "distinct (assigned cs (snd (openApp now s a t)))"
        and d3: "\<forall>i \<in> set (assigned cs (snd (openApp now s a t))). \<exists>u\<ge>Suc now. i = toString u"
        by simp_all
      have fresh: "toString now \<notin> set (assigned cs (snd (openApp now s a t)))"
      proof
        assume "toString now \<in> set (assigned cs (snd (openApp now s a t)))"
        with d3 obtain u where "Suc now \<le> u" "toString now = toString u" by blast
        with toString_inj have "Suc now \<le> now" by blast
        then show False by simp
      qed
      have d3': "\<forall>i \<in> set (assigned cs (snd (openApp now s a t))). \<exists>u\<ge>b. i = toString u"
      proof
        fix i assume "i \<in> set (assigned cs (snd (openApp now s a t)))"
        with d3 obtain u where "Suc now \<le> u" "i = toString u" by blast
        with bn have "b \<le> u" by simp
        with \<open>i = toString u\<close> show "\<exists>u\<ge>b. i = toString u" by blast
      qed
      from d1 d2 fresh d3' bn Open show ?thesis
        by (auto simp: openApp_create_ids(2) [OF None] simp del: created.simps)
    qed
  qed
qed

text \<open>
  C3 as stated fails: the id is the clock reading, so two windows opened at the same
  reading share an id, and an id is given out again when a later window is created at the
  reading of a closed one.
\<close>

theorem ids_collide_at_same_reading:
  "map id_w (windows (session [Open 5 ''FileManager'' ''File Manager'',
                               Open 5 ''Terminal'' ''Terminal''])) = [''5'', ''5''] \<and>
   \<not> distinct (map id_w (windows (session [Open 5 ''FileManager'' ''File Manager'',
                                           Open 5 ''Terminal'' ''Terminal'']))) \<and>
   assigned [Open 5 ''FileManager'' ''File Manager'', Close ''5'',
             Open 5 ''Terminal'' ''Terminal''] initial = [''5'', ''5'']"
  by (simp add: session_def initial_def openApp_def toString.simps digit_def closeWindow_def)

text \<open>
  C3, amended. In a session whose \<open>openApp\<close> calls are made at strictly increasing clock
  readings, the windows in the array have pairwise distinct ids, and the ids given to the
  windows created during the session are pairwise distinct: none is given out twice.
\<close>

theorem ids_unique_when_clock_advances:
  assumes "sorted_wrt (<) (readings cs)"
  shows "distinct (map id_w (windows (session cs))) \<and> distinct (assigned cs initial)"
proof -
  have "ids_below 0 initial" by (simp add: ids_below_def initial_def)
  from ids_fresh_run [OF this assms] show ?thesis by (simp add: session_def)
qed

theorem ids_unique_when_clock_advances_witness:
  "readings [Open 1 ''NotesApp'' ''Notes'', Open 2 ''Terminal'' ''Terminal'', Close ''1'',
             Open 3 ''Terminal'' ''Terminal'', Open 4 ''Browser'' ''Browser''] = [1, 2, 3, 4] \<and>
   map id_w (windows (session [Open 1 ''NotesApp'' ''Notes'', Open 2 ''Terminal'' ''Terminal'',
             Close ''1'', Open 3 ''Terminal'' ''Terminal'', Open 4 ''Browser'' ''Browser'']))
     = [''2'', ''4''] \<and>
   assigned [Open 1 ''NotesApp'' ''Notes'', Open 2 ''Terminal'' ''Terminal'', Close ''1'',
             Open 3 ''Terminal'' ''Terminal'', Open 4 ''Browser'' ''Browser''] initial
     = [''1'', ''2'', ''4''] \<and>
   distinct (assigned [Open 1 ''NotesApp'' ''Notes'', Open 2 ''Terminal'' ''Terminal'', Close ''1'',
             Open 3 ''Terminal'' ''Terminal'', Open 4 ''Browser'' ''Browser''] initial)"
  using ids_unique_when_clock_advances
    [of "[Open 1 ''NotesApp'' ''Notes'', Open 2 ''Terminal'' ''Terminal'', Close ''1'',
          Open 3 ''Terminal'' ''Terminal'', Open 4 ''Browser'' ''Browser'']"]
  by (simp add: session_def initial_def openApp_def toString.simps digit_def closeWindow_def
        focusWindow_def)

end
